theory Spec2Isabelle
  imports
    Complex_Main
    "HOL-Library.Word"
    "HOL-Library.Sublist"
    "HOL-Library.Stream"
    "HOL-Library.Log_Nat"
    "HOL-Library.Signed_Division"
begin

unbundle bit_operations_syntax

section \<open>Text produced by the C++ library\<close>

text \<open>
  The sender builds its sentence from \<^verbatim>\<open>std::to_string\<close> and from stream
  insertions under \<^verbatim>\<open>setw\<close>/\<^verbatim>\<open>setfill\<close>. A \<^verbatim>\<open>std::string\<close> is a
  sequence of bytes: \<^typ>\<open>string\<close>.
\<close>

definition digit_char :: "nat \<Rightarrow> char" where
  "digit_char d = ''0123456789ABCDEF'' ! d"

text \<open>
  The digits of \<open>n\<close> in base \<open>b\<close>, most significant first. The base is 10 or 16
  here; the test \<open>b < 2\<close> only keeps the recursion well-founded.
\<close>

function digits :: "nat \<Rightarrow> nat \<Rightarrow> string" where
  "digits b n =
     (if b < 2 \<or> n < b then [digit_char n]
      else digits b (n div b) @ [digit_char (n mod b)])"
  by pat_completeness auto
termination
  by (relation "measure snd") auto

declare digits.simps [simp del]

text \<open>\<^verbatim>\<open>std::to_string(int)\<close>: decimal, with a minus sign for a negative value.\<close>

definition to_string_int :: "int \<Rightarrow> string" where
  "to_string_int i =
     (if i < 0 then CHR ''-'' # digits 10 (nat (- i)) else digits 10 (nat i))"

text \<open>
  \<^verbatim>\<open>ss << std::setw(w) << std::setfill(c) << v\<close>: the text of \<open>v\<close>, filled on the
  left up to width \<open>w\<close> (the default adjustment is to the right); a longer text is
  kept whole.
\<close>

definition setw_setfill :: "nat \<Rightarrow> char \<Rightarrow> string \<Rightarrow> string" where
  "setw_setfill w c s = replicate (w - length s) c @ s"

text \<open>
  The fields of \<^verbatim>\<open>std::tm\<close> the sender reads. They are C \<^verbatim>\<open>int\<close>s that
  \<^verbatim>\<open>gmtime\<close> keeps far from the ends of their range; they are integers here.
\<close>

record tm =
  tm_sec :: int
  tm_min :: int
  tm_hour :: int
  tm_mday :: int
  tm_mon :: int
  tm_year :: int

definition getFormattedTime :: "tm \<Rightarrow> string" where
  "getFormattedTime timeStruct =
     setw_setfill 2 CHR ''0'' (to_string_int (tm_hour timeStruct))
     @ setw_setfill 2 CHR ''0'' (to_string_int (tm_min timeStruct))
     @ setw_setfill 2 CHR ''0'' (to_string_int (tm_sec timeStruct))
     @ ''.00''"

text \<open>The remainder \<^verbatim>\<open>%\<close> of C truncates towards zero: \<open>smod\<close>.\<close>

definition getFormattedDate :: "tm \<Rightarrow> string" where
  "getFormattedDate timeStruct =
     setw_setfill 2 CHR ''0'' (to_string_int (tm_mday timeStruct))
     @ setw_setfill 2 CHR ''0'' (to_string_int (tm_mon timeStruct + 1))
     @ setw_setfill 2 CHR ''0'' (to_string_int (tm_year timeStruct smod 100))"

section \<open>Double-precision arithmetic\<close>

text \<open>
  A finite \<^verbatim>\<open>double\<close> is the rational number it denotes. Every operation
  computes the exact result and rounds it to the nearest number with a 53-bit
  significand, ties to the even significand (IEEE 754 binary64, as on x86-64 and
  ARM64). The exponent range is not limited: every value of the sender is 0 or lies
  between \<open>10\<^sup>-\<^sup>6\<close> and \<open>10800\<close>, far from overflow and from the subnormal numbers.
\<close>

type_synonym double = rat

text \<open>Rounding to the nearest integer, ties to even.\<close>

definition rne :: "rat \<Rightarrow> int" where
  "rne q =
     (let f = \<lfloor>q\<rfloor>; r = q - of_int f in
      if r < 1 / 2 then f else if 1 / 2 < r then f + 1 else if even f then f else f + 1)"

text \<open>The exponent \<open>e\<close> with \<open>2\<^sup>e \<le> \<bar>x\<bar> < 2\<^sup>e\<^sup>+\<^sup>1\<close>, for \<open>x \<noteq> 0\<close>.\<close>

definition binade :: "rat \<Rightarrow> int" where
  "binade x =
     (let (p, q) = quotient_of \<bar>x\<bar>; e = bitlen p - bitlen q in
      if 2 powi e \<le> \<bar>x\<bar> then e else e - 1)"

definition fl :: "rat \<Rightarrow> double" where
  "fl x = (if x = 0 then 0 else let u = 2 powi (binade x - 52) in of_int (rne (x / u)) * u)"

definition dadd :: "double \<Rightarrow> double \<Rightarrow> double" where
  "dadd x y = fl (x + y)"

definition dsub :: "double \<Rightarrow> double \<Rightarrow> double" where
  "dsub x y = fl (x - y)"

definition dmul :: "double \<Rightarrow> double \<Rightarrow> double" where
  "dmul x y = fl (x * y)"

definition ddiv :: "double \<Rightarrow> double \<Rightarrow> double" where
  "ddiv x y = fl (x / y)"

text \<open>The cast \<^verbatim>\<open>(int)x\<close> drops the fraction.\<close>

definition to_int :: "double \<Rightarrow> int" where
  "to_int x = (if 0 \<le> x then \<lfloor>x\<rfloor> else \<lceil>x\<rceil>)"

text \<open>
  \<^verbatim>\<open>std::to_string(double)\<close> prints as \<^verbatim>\<open>%f\<close> does: the value rounded to six
  decimals, all six printed.
\<close>

definition to_string_double :: "double \<Rightarrow> string" where
  "to_string_double x =
     (let n = nat (rne (\<bar>x\<bar> * 1000000)) in
      (if x < 0 then ''-'' else [])
      @ digits 10 (n div 1000000) @ ''.''
      @ setw_setfill 6 CHR ''0'' (digits 10 (n mod 1000000)))"

section \<open>The checksum\<close>

text \<open>
  \<^verbatim>\<open>calculateChecksum\<close> folds \<^verbatim>\<open>checksum ^= sentence[i]\<close> over the indices
  from 1 on, in an \<^verbatim>\<open>unsigned char\<close>, and prints the result in upper-case
  hexadecimal at width 2, filled with zeros.
\<close>

definition xor_from_1 :: "string \<Rightarrow> 8 word" where
  "xor_from_1 sentence = foldl (\<lambda>checksum c. checksum XOR of_char c) 0 (drop 1 sentence)"

definition calculateChecksum :: "string \<Rightarrow> string" where
  "calculateChecksum sentence =
     setw_setfill 2 CHR ''0'' (digits 16 (unat (xor_from_1 sentence)))"

section \<open>The sender\<close>

text \<open>
  What \<^verbatim>\<open>generateGNSSData\<close> reads from outside: the broken-down time that
  \<^verbatim>\<open>gmtime\<close> gives for \<^verbatim>\<open>time(0)\<close>, and the values \<^verbatim>\<open>rand()\<close> returns
  from now on (each between 0 and \<^verbatim>\<open>RAND_MAX\<close>).
\<close>

record world =
  clock :: tm
  rand_seq :: "nat stream"

definition rand :: "world \<Rightarrow> nat \<times> world" where
  "rand w = (shd (rand_seq w), w\<lparr>rand_seq := stl (rand_seq w)\<rparr>)"

text \<open>
  \<^verbatim>\<open>rand() % 90U\<close>: the \<^verbatim>\<open>int\<close> is converted to \<^verbatim>\<open>unsigned\<close> (32 bits)
  before the remainder is taken.
\<close>

definition to_unsigned :: "nat \<Rightarrow> nat" where
  "to_unsigned r = r mod 2 ^ 32"

definition LATITUDE_DEGREE_MAX :: nat where "LATITUDE_DEGREE_MAX = 90"
definition LONGITUDE_DEGREE_MAX :: nat where "LONGITUDE_DEGREE_MAX = 180"
definition MINUTES_IN_DEGREE :: nat where "MINUTES_IN_DEGREE = 60"
definition PRECISION_FACTOR :: nat where "PRECISION_FACTOR = 1000000"

text \<open>The local variables of \<^verbatim>\<open>generateGNSSData\<close> when it starts to build the sentence.\<close>

record locals =
  utc :: string
  date :: string
  latDegrees :: int
  latMinutes :: double
  longDegrees :: int
  longMinutes :: double
  latDirection :: char
  lonDirection :: char
  varDirection :: char

text \<open>
  The first part of \<^verbatim>\<open>generateGNSSData\<close>, up to the three directions. C++ leaves
  open which of the two \<^verbatim>\<open>rand()\<close> calls of one sum runs first; they are taken from
  left to right here, and no property below depends on it.
\<close>

definition generateGNSSData_locals :: "world \<Rightarrow> locals \<times> world" where
  "generateGNSSData_locals w0 =
     (let now = clock w0;
          utc = getFormattedTime now;
          date = getFormattedDate now;
          (r1, w1) = rand w0;
          (r2, w2) = rand w1;
          latVal = dadd (of_nat (to_unsigned r1 mod LATITUDE_DEGREE_MAX))
                     (ddiv (of_nat (to_unsigned r2 mod PRECISION_FACTOR))
                        (of_nat PRECISION_FACTOR));
          (r3, w3) = rand w2;
          (r4, w4) = rand w3;
          longVal = dadd (of_nat (to_unsigned r3 mod LONGITUDE_DEGREE_MAX))
                      (ddiv (of_nat (to_unsigned r4 mod PRECISION_FACTOR))
                         (of_nat PRECISION_FACTOR));
          latDegrees = to_int latVal;
          latMinutes = dmul (dsub latVal (of_int latDegrees)) (of_nat MINUTES_IN_DEGREE);
          longDegrees = to_int longVal;
          longMinutes = dmul (dsub longVal (of_int longDegrees)) (of_nat MINUTES_IN_DEGREE);
          (r5, w5) = rand w4;
          latDirection = (if r5 mod 2 = 0 then CHR ''N'' else CHR ''S'');
          (r6, w6) = rand w5;
          lonDirection = (if r6 mod 2 = 0 then CHR ''E'' else CHR ''W'');
          (r7, w7) = rand w6;
          varDirection = (if r7 mod 2 = 0 then CHR ''E'' else CHR ''W'')
      in (\<lparr>utc = utc, date = date,
           latDegrees = latDegrees, latMinutes = latMinutes,
           longDegrees = longDegrees, longMinutes = longMinutes,
           latDirection = latDirection, lonDirection = lonDirection,
           varDirection = varDirection\<rparr>, w7))"

text \<open>The second part: the sentence, built by appending to \<^verbatim>\<open>nmeaData\<close>.\<close>

definition generateGNSSData_sentence :: "locals \<Rightarrow> string" where
  "generateGNSSData_sentence v =
     (let nmeaData = ''$GPRMC,'';
          nmeaData = nmeaData @ utc v @ '','';
          nmeaData = nmeaData @ ''A,'';
          nmeaData = nmeaData @ to_string_int (latDegrees v) @ to_string_double (latMinutes v)
                       @ '','' @ [latDirection v] @ '','';
          nmeaData = nmeaData @ to_string_int (longDegrees v) @ to_string_double (longMinutes v)
                       @ '','' @ [lonDirection v] @ '','';
          nmeaData = nmeaData @ ''0.0,0.0,'';
          nmeaData = nmeaData @ date v @ '','';
          nmeaData = nmeaData @ ''0.0,'';
          nmeaData = nmeaData @ [varDirection v];
          nmeaData = nmeaData @ '',A'';
          nmeaData = nmeaData @ ''*'' @ calculateChecksum nmeaData
      in nmeaData)"

definition generateGNSSData :: "world \<Rightarrow> string \<times> world" where
  "generateGNSSData w =
     (let (v, w') = generateGNSSData_locals w in (generateGNSSData_sentence v, w'))"

section \<open>The receiver's validator\<close>

text \<open>
  \<^verbatim>\<open>std::string::rfind(str, pos)\<close>: the highest index not above \<open>pos\<close> at which
  \<open>str\<close> occurs, or \<^verbatim>\<open>npos\<close> (\<open>None\<close>).
\<close>

fun rfind_down :: "string \<Rightarrow> string \<Rightarrow> nat \<Rightarrow> nat option" where
  "rfind_down s str 0 = (if take (length str) s = str then Some 0 else None)"
| "rfind_down s str (Suc i) =
     (if take (length str) (drop (Suc i) s) = str then Some (Suc i)
      else rfind_down s str i)"

definition rfind :: "string \<Rightarrow> string \<Rightarrow> nat \<Rightarrow> nat option" where
  "rfind s str pos =
     (if length str \<le> length s then rfind_down s str (min (length s - length str) pos)
      else None)"

text \<open>What the receiver prints and sends to its database, in order.\<close>

datatype event =
    Log_line string string
  | Valid_line
  | Invalid_line
  | Sql_exec string
  | Inserted_line
  | Sql_error_line string
  | Signal_line

text \<open>\<^verbatim>\<open>validateNMEAFormat\<close>: its result, and the line it prints.\<close>

definition validateNMEAFormat :: "string \<Rightarrow> bool \<times> event list" where
  "validateNMEAFormat gnssData =
     (if rfind gnssData ''$GPRMC'' 0 = Some 0 then (True, [Valid_line])
      else (False, [Invalid_line]))"

section \<open>The receiver\<close>

text \<open>
  The two globals of the receiver, and what it has printed and sent to the database
  so far.
\<close>

record receiver =
  receivedMessage :: string
  running :: bool
  emitted :: "event list"

definition initial :: receiver where
  "initial = \<lparr>receivedMessage = [], running = True, emitted = []\<rparr>"

definition on_message :: "string \<Rightarrow> receiver \<Rightarrow> receiver" where
  "on_message payload st = st\<lparr>receivedMessage := payload\<rparr>"

definition handle_signal :: "receiver \<Rightarrow> receiver" where
  "handle_signal st = st\<lparr>emitted := emitted st @ [Signal_line], running := False\<rparr>"

text \<open>\<^verbatim>\<open>logGNSSData\<close> prints one line: the local time \<open>stamp\<close> and the data.\<close>

definition logGNSSData :: "string \<Rightarrow> string \<Rightarrow> event list" where
  "logGNSSData stamp gnssData = [Log_line stamp gnssData]"

text \<open>
  \<^verbatim>\<open>storeValidData\<close> builds its statement in a \<^verbatim>\<open>std::string\<close> and hands
  \<^verbatim>\<open>sql.c_str()\<close> to \<^verbatim>\<open>sqlite3_exec\<close>, which reads a C string: the text up to
  the first NUL byte. The answer of \<^verbatim>\<open>sqlite3_exec\<close> comes from outside: \<open>None\<close>
  for \<^verbatim>\<open>SQLITE_OK\<close>, or the error message.
\<close>

definition c_str :: "string \<Rightarrow> string" where
  "c_str s = takeWhile (\<lambda>c. c \<noteq> CHR 0x00) s"

definition insert_sql :: "string \<Rightarrow> string" where
  "insert_sql gnssData =
     ''INSERT INTO GNSS_DATA (NMEA_DATA) VALUES ('' @ [CHR 0x27] @ gnssData
       @ [CHR 0x27] @ '');''"

definition storeValidData :: "string \<Rightarrow> string option \<Rightarrow> event list" where
  "storeValidData gnssData rc =
     (let sql = insert_sql gnssData
      in Sql_exec (c_str sql) #
         (case rc of None \<Rightarrow> [Inserted_line] | Some errMsg \<Rightarrow> [Sql_error_line errMsg]))"

text \<open>The statement that \<^verbatim>\<open>sqlite3_exec\<close> reads when some data is stored.\<close>

definition insert_statement :: "string \<Rightarrow> string" where
  "insert_statement gnssData = c_str (insert_sql gnssData)"

text \<open>
  What reaches the receiver during one turn of its loop, after the loop condition has
  been read: the message callbacks and signals that run inside
  \<^verbatim>\<open>mosquitto_loop\<close>, in order; whether a signal arrives later in the turn, before
  the condition is read again (its line is put after the lines of the turn); the
  time \<^verbatim>\<open>logGNSSData\<close> would print; the answer \<^verbatim>\<open>sqlite3_exec\<close> would give.
\<close>

datatype activity = Deliver string | Signal

record turn =
  arrivals :: "activity list"
  signal_late :: bool
  stamp :: string
  exec_result :: "string option"

fun arrive :: "receiver \<Rightarrow> activity \<Rightarrow> receiver" where
  "arrive st (Deliver payload) = on_message payload st"
| "arrive st Signal = handle_signal st"

definition mosquitto_loop :: "activity list \<Rightarrow> receiver \<Rightarrow> receiver" where
  "mosquitto_loop acts st = foldl arrive st acts"

text \<open>The block under \<^verbatim>\<open>if (!receivedMessage.empty())\<close>.\<close>

definition process_message :: "turn \<Rightarrow> receiver \<Rightarrow> receiver" where
  "process_message t st =
     (if receivedMessage st \<noteq> [] then
        let out1 = logGNSSData (stamp t) (receivedMessage st);
            (isValid, out2) = validateNMEAFormat (receivedMessage st);
            out3 = (if isValid then storeValidData (receivedMessage st) (exec_result t) else [])
        in st\<lparr>emitted := emitted st @ out1 @ out2 @ out3, receivedMessage := []\<rparr>
      else st)"

definition loop_body :: "turn \<Rightarrow> receiver \<Rightarrow> receiver" where
  "loop_body t st =
     (let st = mosquitto_loop (arrivals t) st;
          st = process_message t st
      in if signal_late t then handle_signal st else st)"

text \<open>
  \<^verbatim>\<open>while (running) { ... }\<close> against the turns the environment offers. The list
  is as much of the environment as is observed: when it ends with the flag still
  set, the loop is still turning.
\<close>

datatype status = Exited | Turning

fun main_loop :: "receiver \<Rightarrow> turn list \<Rightarrow> receiver \<times> status" where
  "main_loop st [] = (st, if running st then Turning else Exited)"
| "main_loop st (t # ts) =
     (if running st then main_loop (loop_body t st) ts else (st, Exited))"

text \<open>
  Observations on a run: how often the loop body runs; whether a signal arrives in a
  turn; the payloads delivered; the messages logged, the verdicts printed and the
  statements executed.
\<close>

fun turns_taken :: "receiver \<Rightarrow> turn list \<Rightarrow> nat" where
  "turns_taken st [] = 0"
| "turns_taken st (t # ts) =
     (if running st then Suc (turns_taken (loop_body t st) ts) else 0)"

definition signalled :: "turn \<Rightarrow> bool" where
  "signalled t \<longleftrightarrow> Signal \<in> set (arrivals t) \<or> signal_late t"

fun payloads :: "activity list \<Rightarrow> string list" where
  "payloads [] = []"
| "payloads (Deliver p # as) = p # payloads as"
| "payloads (Signal # as) = payloads as"

definition delivered :: "turn list \<Rightarrow> string list" where
  "delivered ts = concat (map (\<lambda>t. payloads (arrivals t)) ts)"

fun logged :: "event list \<Rightarrow> string list" where
  "logged [] = []"
| "logged (Log_line s m # es) = m # logged es"
| "logged (e # es) = logged es"

fun verdicts :: "event list \<Rightarrow> bool list" where
  "verdicts [] = []"
| "verdicts (Valid_line # es) = True # verdicts es"
| "verdicts (Invalid_line # es) = False # verdicts es"
| "verdicts (e # es) = verdicts es"

fun executed :: "event list \<Rightarrow> string list" where
  "executed [] = []"
| "executed (Sql_exec q # es) = q # executed es"
| "executed (e # es) = executed es"

section \<open>The checksum contract of the specification\<close>

text \<open>
  The specification's \<open>compute\<close> and \<open>toHex\<close>, in its words: the XOR-fold of all
  bytes of the body, and two upper-case hexadecimal digits, zero-padded.
\<close>

definition spec_compute :: "string \<Rightarrow> 8 word" where
  "spec_compute body = fold (\<lambda>c acc. acc XOR of_char c) body 0"

definition spec_toHex :: "8 word \<Rightarrow> string" where
  "spec_toHex b = [digit_char (unat b div 16), digit_char (unat b mod 16)]"

definition to_upper :: "char \<Rightarrow> char" where
  "to_upper c =
     (if (97::nat) \<le> of_char c \<and> of_char c \<le> (122::nat) then char_of (of_char c - (32::nat))
      else c)"

text \<open>
  Modelled from the spec: \<open>verify\<close>, which the sources do not contain (the receiver
  never checks a checksum). It recomputes \<open>compute\<close> over the text between the
  leading \<^verbatim>\<open>$\<close> and the \<^verbatim>\<open>*\<close>, and compares it, ignoring case, with the two
  hexadecimal digits that end the sentence after the \<^verbatim>\<open>*\<close>; without a \<^verbatim>\<open>*\<close> the
  answer is false.
\<close>

definition spec_verify :: "string \<Rightarrow> bool" where
  "spec_verify sentence =
     (if CHR ''*'' \<notin> set (drop 1 sentence) then False
      else
        let body = takeWhile (\<lambda>c. c \<noteq> CHR ''*'') (drop 1 sentence);
            suffix = drop 1 (dropWhile (\<lambda>c. c \<noteq> CHR ''*'') (drop 1 sentence))
        in map to_upper suffix = spec_toHex (spec_compute body))"

text \<open>One bit of a byte turned over.\<close>

definition flip_bit :: "nat \<Rightarrow> char \<Rightarrow> char" where
  "flip_bit k c = char_of (unat ((of_char c :: 8 word) XOR push_bit k 1))"

section \<open>The shape of a sentence\<close>

text \<open>The fields between separators: one more than there are separators.\<close>

fun split_on :: "char \<Rightarrow> string \<Rightarrow> string list" where
  "split_on sep [] = [[]]"
| "split_on sep (c # cs) =
     (if c = sep then [] # split_on sep cs
      else (case split_on sep cs of [] \<Rightarrow> [[c]] | f # fs \<Rightarrow> (c # f) # fs))"

text \<open>
  The specification's sentence with \<open>n\<close> fields: \<^verbatim>\<open>$GPRMC,\<close>, then \<open>n\<close> fields
  separated by commas, then \<^verbatim>\<open>*\<close> and two hexadecimal digits, all of it ASCII and
  without a newline.
\<close>

definition fields_of :: "string \<Rightarrow> string list" where
  "fields_of s = split_on CHR '','' (takeWhile (\<lambda>c. c \<noteq> CHR ''*'') (drop 7 s))"

definition sentence_shape :: "nat \<Rightarrow> string \<Rightarrow> bool" where
  "sentence_shape n s \<longleftrightarrow>
     take 7 s = ''$GPRMC,'' \<and>
     length (fields_of s) = n \<and>
     length (dropWhile (\<lambda>c. c \<noteq> CHR ''*'') s) = 3 \<and>
     list_all (\<lambda>c. c \<in> set ''0123456789ABCDEF'') (drop 1 (dropWhile (\<lambda>c. c \<noteq> CHR ''*'') s)) \<and>
     list_all (\<lambda>c. (of_char c :: nat) < 128) s \<and>
     CHR 0x0A \<notin> set s"

text \<open>
  The characters a field of the sender's sentence can hold, the fields in the order
  the sender appends them, and fields joined by a separator.
\<close>

definition plain :: "string \<Rightarrow> bool" where
  "plain f \<longleftrightarrow> set f \<subseteq> set ''0123456789-.ANSEW''"

definition join :: "string \<Rightarrow> string list \<Rightarrow> string" where
  "join sep fs = (case fs of [] \<Rightarrow> [] | f # fs' \<Rightarrow> f @ concat (map (\<lambda>g. sep @ g) fs'))"

definition sentence_fields :: "locals \<Rightarrow> string list" where
  "sentence_fields v =
     [utc v, ''A'',
      to_string_int (latDegrees v) @ to_string_double (latMinutes v), [latDirection v],
      to_string_int (longDegrees v) @ to_string_double (longMinutes v), [lonDirection v],
      ''0.0'', ''0.0'', date v, ''0.0'', [varDirection v], ''A'']"

section \<open>Sample inputs\<close>

text \<open>
  A clock reading (10:45:12 on 1 October 2024) with a random source; a world that
  differs from it only after the seventh random value; and one that differs only in
  a clock one second ahead.
\<close>

definition sample_clock :: tm where
  "sample_clock =
     \<lparr>tm_sec = 12, tm_min = 45, tm_hour = 10, tm_mday = 1, tm_mon = 9, tm_year = 124\<rparr>"

definition sample_world :: world where
  "sample_world = \<lparr>clock = sample_clock,
     rand_seq = 37 ## 241712 ## 76 ## 972197 ## 0 ## 1 ## 0 ## sconst 1\<rparr>"



text \<open>
  The body of the sample sentence, and three turns of the receiver's loop: three
  deliveries in one poll, a refused message with a signal, and a delivery that
  comes too late.
\<close>

definition sample_body :: string where
  "sample_body = ''GPRMC,104512.00,A,3714.502720,N,7658.331820,W,0.0,0.0,011024,0.0,E,A''"

definition turn_a :: turn where
  "turn_a = \<lparr>arrivals = [Deliver ''$GPRMC,1'', Deliver [], Deliver ''$GPRMC,2''],
     signal_late = False, stamp = ''2024-10-01 10:45:13'', exec_result = None\<rparr>"

definition turn_b :: turn where
  "turn_b = \<lparr>arrivals = [Deliver ''noise'', Signal],
     signal_late = False, stamp = ''2024-10-01 10:45:14'', exec_result = None\<rparr>"

definition turn_c :: turn where
  "turn_c = \<lparr>arrivals = [Deliver ''$GPRMC,3''],
     signal_late = False, stamp = ''2024-10-01 10:45:15'', exec_result = None\<rparr>"


section \<open>Properties of the validator\<close>

lemma rfind_0: "rfind s str 0 = Some 0 \<longleftrightarrow> prefix str s"
proof
  assume "rfind s str 0 = Some 0"
  then have "take (length str) s = str"
    by (simp add: rfind_def split: if_splits)
  then show "prefix str s"
    by (metis take_is_prefix)
next
  assume "prefix str s"
  then obtain t where "s = str @ t"
    by (auto simp: prefix_def)
  then show "rfind s str 0 = Some 0"
    by (simp add: rfind_def)
qed

lemma validate_eq:
  "validateNMEAFormat s =
     (if prefix ''$GPRMC'' s then (True, [Valid_line]) else (False, [Invalid_line]))"
  by (simp add: validateNMEAFormat_def rfind_0)

text \<open>
  C3. The validator answers true exactly for the strings that begin with
  \<^verbatim>\<open>$GPRMC\<close>, printing \<^verbatim>\<open>Valid NMEA data\<close>; every other string is
  refused with the one line \<^verbatim>\<open>Invalid NMEA data\<close>. Nothing but the prefix is
  looked at: no field, no checksum.
\<close>

theorem validateNMEAFormat_prefix:
  "validateNMEAFormat s =
     (if prefix ''$GPRMC'' s then (True, [Valid_line]) else (False, [Invalid_line]))"
  by (simp add: validateNMEAFormat_def rfind_0)

section \<open>Properties of the rounding\<close>

lemma rne_of_int [simp]: "rne (of_int n) = n"
  by (simp add: rne_def)

lemma rne_cases: "rne q = \<lfloor>q\<rfloor> \<or> rne q = \<lfloor>q\<rfloor> + 1"
  by (simp add: rne_def Let_def)

lemma rne_mono: "q \<le> q' \<Longrightarrow> rne q \<le> rne q'"
proof -
  assume le: "q \<le> q'"
  then have fl: "\<lfloor>q\<rfloor> \<le> \<lfloor>q'\<rfloor>" by (rule floor_mono)
  show ?thesis
  proof (cases "\<lfloor>q\<rfloor> = \<lfloor>q'\<rfloor>")
    case True
    with le show ?thesis
      by (auto simp: rne_def Let_def)
  next
    case False
    with fl have "\<lfloor>q\<rfloor> + 1 \<le> \<lfloor>q'\<rfloor>" by simp
    moreover have "rne q \<le> \<lfloor>q\<rfloor> + 1" using rne_cases [of q] by auto
    moreover have "\<lfloor>q'\<rfloor> \<le> rne q'" using rne_cases [of q'] by auto
    ultimately show ?thesis by linarith
  qed
qed

lemma rne_ge: "of_int m \<le> q \<Longrightarrow> m \<le> rne q"
  using rne_mono [of "of_int m" q] by simp

lemma rne_le: "q \<le> of_int m \<Longrightarrow> rne q \<le> m"
  using rne_mono [of q "of_int m"] by simp

lemma bitlen_powi:
  assumes "0 < p"
  shows "2 powi (bitlen p - 1) \<le> (of_int p :: rat)" and "(of_int p :: rat) < 2 powi bitlen p"
proof -
  from assms have b: "1 \<le> bitlen p"
    using bitlen_eq_zero_iff [of p] bitlen_nonneg [of p] by linarith
  from bitlen_bounds [OF assms]
  have 1: "2 ^ nat (bitlen p - 1) \<le> p" and 2: "p < 2 ^ nat (bitlen p)" by auto
  from 1 have "(of_int (2 ^ nat (bitlen p - 1)) :: rat) \<le> of_int p"
    by (simp only: of_int_le_iff)
  with b show "2 powi (bitlen p - 1) \<le> (of_int p :: rat)"
    by (simp add: power_int_def)
  from 2 have "(of_int p :: rat) < of_int (2 ^ nat (bitlen p))"
    by (simp only: of_int_less_iff)
  with b show "(of_int p :: rat) < 2 powi bitlen p"
    by (simp add: power_int_def)
qed

lemma quotient_bounds:
  fixes x :: rat
  assumes "0 < x" and "quotient_of x = (p, q)"
  shows "2 powi (bitlen p - bitlen q - 1) \<le> x" and "x < 2 powi (bitlen p - bitlen q + 1)"
proof -
  from assms(2) have q: "0 < q" by (rule quotient_of_denom_pos)
  from assms(2) have x: "x = of_int p / of_int q" by (rule quotient_of_div)
  with assms(1) q have p: "0 < p" by (simp add: zero_less_divide_iff)
  note P = bitlen_powi [OF p] and Q = bitlen_powi [OF q]
  have qpos: "(0::rat) < of_int q" using q by simp
  have "2 powi (bitlen p - bitlen q - 1) = (2 powi (bitlen p - 1) :: rat) / 2 powi bitlen q"
    by (simp add: power_int_diff)
  also have "\<dots> \<le> of_int p / 2 powi bitlen q"
    using P(1) by (simp add: divide_right_mono)
  also have "\<dots> \<le> of_int p / of_int q"
    using Q(2) p qpos by (simp add: frac_le)
  finally show "2 powi (bitlen p - bitlen q - 1) \<le> x" by (simp add: x)
  have "x = of_int p / of_int q" by (rule x)
  also have "\<dots> < 2 powi bitlen p / of_int q"
    using P(2) qpos by (simp add: divide_strict_right_mono)
  also have "\<dots> \<le> 2 powi bitlen p / 2 powi (bitlen q - 1)"
    using Q(1) by (simp add: frac_le)
  also have "\<dots> = 2 powi (bitlen p - bitlen q + 1)"
    by (simp add: power_int_diff power_int_add field_simps)
  finally show "x < 2 powi (bitlen p - bitlen q + 1)" .
qed

lemma binade_bounds:
  assumes "x \<noteq> 0"
  shows "2 powi binade x \<le> \<bar>x\<bar>" and "\<bar>x\<bar> < 2 powi (binade x + 1)"
proof -
  obtain p q where pq: "quotient_of \<bar>x\<bar> = (p, q)" by (cases "quotient_of \<bar>x\<bar>")
  from assms have pos: "0 < \<bar>x\<bar>" by simp
  note B = quotient_bounds [OF pos pq]
  show "2 powi binade x \<le> \<bar>x\<bar>"
    using B(1) by (simp add: binade_def pq Let_def)
  show "\<bar>x\<bar> < 2 powi (binade x + 1)"
    using B(2) by (auto simp: binade_def pq Let_def not_le)
qed

lemma powi2_less_imp: "(2::rat) powi m < 2 powi n \<Longrightarrow> m < n"
proof (rule ccontr)
  assume a: "(2::rat) powi m < 2 powi n" and "\<not> m < n"
  then have "n \<le> m" by simp
  then have "(2::rat) powi n \<le> 2 powi m" by (rule power_int_increasing) simp
  with a show False by simp
qed

lemma binade_unique:
  assumes "2 powi e \<le> \<bar>x\<bar>" and "\<bar>x\<bar> < 2 powi (e + 1)"
  shows "binade x = e"
proof -
  have "(0::rat) < 2 powi e" by simp
  with assms(1) have "0 < \<bar>x\<bar>" by linarith
  then have nz: "x \<noteq> 0" by simp
  note B = binade_bounds [OF nz]
  have "(2::rat) powi e < 2 powi (binade x + 1)" using assms(1) B(2) by simp
  then have 1: "e < binade x + 1" by (rule powi2_less_imp)
  have "(2::rat) powi binade x < 2 powi (e + 1)" using assms(2) B(1) by simp
  then have 2: "binade x < e + 1" by (rule powi2_less_imp)
  from 1 2 show ?thesis by simp
qed

lemma binade_mono:
  assumes "0 < x" and "x \<le> y"
  shows "binade x \<le> binade y"
proof -
  from assms have nx: "x \<noteq> 0" and ny: "y \<noteq> 0" by auto
  have "2 powi binade x \<le> \<bar>x\<bar>" by (rule binade_bounds(1) [OF nx])
  also have "\<bar>x\<bar> \<le> \<bar>y\<bar>" using assms by simp
  also have "\<bar>y\<bar> < 2 powi (binade y + 1)" by (rule binade_bounds(2) [OF ny])
  finally have "binade x < binade y + 1" by (rule powi2_less_imp)
  then show ?thesis by simp
qed

lemma ulp_scale: "(2::rat) powi e / 2 powi (e - 52) = of_int (2 ^ 52)"
  by (simp add: power_int_diff)

lemma ulp_scale': "(2::rat) powi (e + 1) / 2 powi (e - 52) = of_int (2 ^ 53)"
  by (simp add: power_int_diff power_int_add)

lemma fl_pos_bounds:
  assumes "0 < x"
  shows "2 powi binade x \<le> fl x" and "fl x \<le> 2 powi (binade x + 1)"
proof -
  define e where "e = binade x"
  define u :: rat where "u = 2 powi (e - 52)"
  have u: "0 < u" by (simp add: u_def)
  from assms have nz: "x \<noteq> 0" by simp
  have flx: "fl x = of_int (rne (x / u)) * u"
    using nz by (simp add: fl_def u_def e_def Let_def)
  have lo: "2 powi e \<le> x" and hi: "x < 2 powi (e + 1)"
    using binade_bounds [OF nz] assms by (simp_all add: e_def)
  have "of_int (2 ^ 52) = 2 powi e / u" by (simp only: u_def ulp_scale)
  also have "\<dots> \<le> x / u" using lo u by (simp add: divide_right_mono)
  finally have "2 ^ 52 \<le> rne (x / u)" by (rule rne_ge)
  then have "(of_int (2 ^ 52) :: rat) \<le> of_int (rne (x / u))" by (simp only: of_int_le_iff)
  then have "of_int (2 ^ 52) * u \<le> of_int (rne (x / u)) * u"
    using u by (simp only: mult_le_cancel_right_pos)
  moreover have "of_int (2 ^ 52) * u = 2 powi e"
    using ulp_scale [of e] u by (simp add: u_def field_simps)
  ultimately show "2 powi binade x \<le> fl x" by (simp add: flx e_def)
  have "x / u \<le> 2 powi (e + 1) / u" using hi u by (simp add: divide_right_mono)
  also have "\<dots> = of_int (2 ^ 53)" by (simp only: u_def ulp_scale')
  finally have "rne (x / u) \<le> 2 ^ 53" by (rule rne_le)
  then have "(of_int (rne (x / u)) :: rat) \<le> of_int (2 ^ 53)" by (simp only: of_int_le_iff)
  then have "of_int (rne (x / u)) * u \<le> of_int (2 ^ 53) * u"
    using u by (simp only: mult_le_cancel_right_pos)
  moreover have "of_int (2 ^ 53) * u = 2 powi (e + 1)"
    using ulp_scale' [of e] u by (simp add: u_def field_simps)
  ultimately show "fl x \<le> 2 powi (binade x + 1)" by (simp add: flx e_def)
qed

lemma fl_mono_pos:
  assumes "0 < x" and "x \<le> y"
  shows "fl x \<le> fl y"
proof -
  from assms have y: "0 < y" by simp
  from assms have nx: "x \<noteq> 0" and ny: "y \<noteq> 0" by auto
  have le: "binade x \<le> binade y" using assms by (rule binade_mono)
  show ?thesis
  proof (cases "binade x = binade y")
    case True
    define u :: rat where "u = 2 powi (binade y - 52)"
    have u: "0 < u" by (simp add: u_def)
    have "x / u \<le> y / u" using assms(2) u by (simp add: divide_right_mono)
    then have "rne (x / u) \<le> rne (y / u)" by (rule rne_mono)
    then have "(of_int (rne (x / u)) :: rat) * u \<le> of_int (rne (y / u)) * u"
      using u by (simp only: mult_le_cancel_right_pos of_int_le_iff)
    then show ?thesis using nx ny True by (simp add: fl_def Let_def u_def)
  next
    case False
    with le have "binade x + 1 \<le> binade y" by simp
    then have "(2::rat) powi (binade x + 1) \<le> 2 powi binade y"
      by (rule power_int_increasing) simp
    with fl_pos_bounds(2) [OF assms(1)] fl_pos_bounds(1) [OF y]
    show ?thesis by linarith
  qed
qed

lemma fl_0 [simp]: "fl 0 = 0"
  by (simp add: fl_def)

lemma fl_nonneg: "0 \<le> x \<Longrightarrow> 0 \<le> fl x"
proof (cases "x = 0")
  case True then show ?thesis by simp
next
  case False
  assume "0 \<le> x"
  with False have "0 < x" by simp
  from fl_pos_bounds(1) [OF this] have "(2::rat) powi binade x \<le> fl x" .
  moreover have "(0::rat) < 2 powi binade x" by simp
  ultimately show ?thesis by linarith
qed

lemma fl_mono: "0 \<le> x \<Longrightarrow> x \<le> y \<Longrightarrow> fl x \<le> fl y"
  using fl_mono_pos [of x y] fl_nonneg [of y] by (cases "x = 0") auto

lemma fl_exact:
  assumes "0 < m" and "m < 2 ^ 53"
  shows "fl (of_int m * 2 powi k) = of_int m * 2 powi k"
proof -
  define x :: rat where "x = of_int m * 2 powi k"
  define e where "e = binade x"
  have x: "0 < x" using assms(1) by (simp add: x_def)
  then have nz: "x \<noteq> 0" by simp
  have "2 powi e \<le> x" using binade_bounds(1) [OF nz] x by (simp add: e_def)
  also have "x < of_int (2 ^ 53) * 2 powi k"
  proof -
    have "(of_int m :: rat) < of_int (2 ^ 53)" using assms(2) by (simp only: of_int_less_iff)
    moreover have "(0::rat) < 2 powi k" by simp
    ultimately show ?thesis unfolding x_def by (rule mult_strict_right_mono)
  qed
  also have "\<dots> = 2 powi (53 + k)" by (simp add: power_int_add)
  finally have "e < 53 + k" by (rule powi2_less_imp)
  then have d: "0 \<le> k - (e - 52)" by simp
  have "x / 2 powi (e - 52) = of_int m * 2 powi (k - (e - 52))"
    by (simp add: x_def power_int_diff)
  also have "\<dots> = of_int (m * 2 ^ nat (k - (e - 52)))"
    using d by (simp add: power_int_def)
  finally have "rne (x / 2 powi (e - 52)) = m * 2 ^ nat (k - (e - 52))"
    by (simp only: rne_of_int)
  then have "fl x = of_int (m * 2 ^ nat (k - (e - 52))) * 2 powi (e - 52)"
    using nz by (simp add: fl_def e_def Let_def)
  also have "\<dots> = of_int m * (2 powi (k - (e - 52)) * 2 powi (e - 52))"
    using d by (simp add: power_int_def)
  also have "2 powi (k - (e - 52)) * 2 powi (e - 52) = (2::rat) powi k"
    by (simp add: power_int_diff)
  finally show ?thesis by (simp add: x_def)
qed

lemma fl_of_nat: "n < 2 ^ 53 \<Longrightarrow> fl (of_nat n) = of_nat n"
  using fl_exact [of "int n" 0] by (cases "n = 0") auto


section \<open>The generated fix\<close>

text \<open>
  The fraction drawn is at most \<open>0.999999\<close>, which lies below \<open>1 - 2\<^sup>-\<^sup>2\<^sup>0\<close>; that
  bound, its sum with a degree below \<open>2\<^sup>3\<^sup>2\<close> and its product with 60 are all numbers
  of the format, so rounding cannot carry a value over them.
\<close>

lemma frac_bound: "fl (of_int 1048575 * 2 powi (- 20)) = of_int 1048575 * 2 powi (- 20)"
  by (rule fl_exact) simp_all

lemma coordinate:
  fixes d f :: nat
  assumes d: "d < 2 ^ 32" and f: "f < 1000000"
  defines "val \<equiv> dadd (of_nat d) (ddiv (of_nat f) 1000000)"
  shows "to_int val = int d"
    and "0 \<le> dmul (dsub val (of_int (to_int val))) 60"
    and "dmul (dsub val (of_int (to_int val))) 60 < 60"
proof -
  define c :: rat where "c = of_int 1048575 * 2 powi (- 20)"
  define q where "q = ddiv (of_nat f) 1000000"
  have c1: "c < 1" by (simp add: c_def)
  have c0: "0 \<le> c" by (simp add: c_def)
  have flc: "fl c = c" unfolding c_def by (rule frac_bound)
  have "(of_nat f :: rat) \<le> 999999" using f by (simp add: of_nat_le_iff [of f 999999, simplified])
  then have "(of_nat f :: rat) / 1000000 \<le> c" by (simp add: c_def field_simps)
  then have "q \<le> fl c" unfolding q_def ddiv_def by (intro fl_mono) simp_all
  then have q1: "q \<le> c" by (simp add: flc)
  have q0: "0 \<le> q" unfolding q_def ddiv_def by (rule fl_nonneg) simp
  have m: "int d * 2 ^ 20 + 1048575 < 2 ^ 53" using d by simp
  have dc: "of_nat d + c = of_int (int d * 2 ^ 20 + 1048575) * 2 powi (- 20)"
    by (simp add: c_def field_simps)
  have fldc: "fl (of_nat d + c) = of_nat d + c"
    unfolding dc using m by (intro fl_exact) simp_all
  have fld: "fl (of_nat d) = (of_nat d :: rat)"
    using d by (intro fl_of_nat) simp
  have "fl (of_nat d) \<le> val" unfolding val_def dadd_def q_def [symmetric]
    using q0 by (intro fl_mono) simp_all
  then have v0: "of_nat d \<le> val" by (simp add: fld)
  have "val \<le> fl (of_nat d + c)" unfolding val_def dadd_def q_def [symmetric]
    using q0 q1 by (intro fl_mono) simp_all
  then have v1: "val \<le> of_nat d + c" by (simp add: fldc)
  have "0 \<le> val" using v0 of_nat_0_le_iff [of d, where ?'a = rat] by linarith
  moreover have "\<lfloor>val\<rfloor> = int d"
    using v0 v1 c1 by (intro floor_unique) simp_all
  ultimately show ti: "to_int val = int d" by (simp add: to_int_def)
  define r where "r = dsub val (of_int (to_int val))"
  have "0 \<le> val - of_nat d" using v0 by simp
  then have r0: "0 \<le> r" unfolding r_def dsub_def ti by (intro fl_nonneg) simp
  have "val - of_nat d \<le> c" using v1 by simp
  then have "r \<le> fl c" unfolding r_def dsub_def ti using v0 by (intro fl_mono) simp_all
  then have r1: "r \<le> c" by (simp add: flc)
  have c60: "c * 60 = of_int 62914500 * 2 powi (- 20)" by (simp add: c_def)
  have flc60: "fl (c * 60) = c * 60" unfolding c60 by (rule fl_exact) simp_all
  show "0 \<le> dmul (dsub val (of_int (to_int val))) 60"
    unfolding r_def [symmetric] dmul_def using r0 by (intro fl_nonneg) simp
  have "dmul r 60 \<le> fl (c * 60)" unfolding dmul_def using r0 r1 by (intro fl_mono) simp_all
  then have "dmul r 60 \<le> c * 60" by (simp add: flc60)
  also have "c * 60 < 60" using c1 by simp
  finally show "dmul (dsub val (of_int (to_int val))) 60 < 60" by (simp add: r_def)
qed

lemma to_unsigned_less: "to_unsigned r mod m < 2 ^ 32"
proof -
  have "to_unsigned r mod m \<le> to_unsigned r" by (rule mod_less_eq_dividend)
  also have "to_unsigned r < 2 ^ 32" by (simp add: to_unsigned_def)
  finally show ?thesis .
qed

lemma locals_eq:
  "fst (generateGNSSData_locals w) =
     (let r = rand_seq w;
          latVal = dadd (of_nat (to_unsigned (shd r) mod 90))
                     (ddiv (of_nat (to_unsigned (shd (stl r)) mod 1000000)) 1000000);
          longVal = dadd (of_nat (to_unsigned (shd (stl (stl r))) mod 180))
                     (ddiv (of_nat (to_unsigned (shd (stl (stl (stl r)))) mod 1000000)) 1000000)
      in \<lparr>utc = getFormattedTime (clock w), date = getFormattedDate (clock w),
          latDegrees = to_int latVal,
          latMinutes = dmul (dsub latVal (of_int (to_int latVal))) 60,
          longDegrees = to_int longVal,
          longMinutes = dmul (dsub longVal (of_int (to_int longVal))) 60,
          latDirection = (if shd (stl (stl (stl (stl r)))) mod 2 = 0 then CHR ''N'' else CHR ''S''),
          lonDirection = (if shd (stl (stl (stl (stl (stl r))))) mod 2 = 0 then CHR ''E'' else CHR ''W''),
          varDirection = (if shd (stl (stl (stl (stl (stl (stl r)))))) mod 2 = 0 then CHR ''E'' else CHR ''W'')\<rparr>)"
  by (simp add: generateGNSSData_locals_def rand_def Let_def split_def
      LATITUDE_DEGREE_MAX_def LONGITUDE_DEGREE_MAX_def MINUTES_IN_DEGREE_def
      PRECISION_FACTOR_def)

text \<open>
  C7. Whatever the random source returns, the fix that \<^verbatim>\<open>generateGNSSData\<close>
  fabricates has its latitude degrees in \<open>[0, 90)\<close>, its longitude degrees in
  \<open>[0, 180)\<close>, and both minutes values in \<open>[0, 60)\<close>, in double-precision
  arithmetic as the program computes them.
\<close>

theorem generated_fix_in_range:
  "0 \<le> latDegrees (fst (generateGNSSData_locals w)) \<and>
   latDegrees (fst (generateGNSSData_locals w)) < 90 \<and>
   0 \<le> longDegrees (fst (generateGNSSData_locals w)) \<and>
   longDegrees (fst (generateGNSSData_locals w)) < 180 \<and>
   0 \<le> latMinutes (fst (generateGNSSData_locals w)) \<and>
   latMinutes (fst (generateGNSSData_locals w)) < 60 \<and>
   0 \<le> longMinutes (fst (generateGNSSData_locals w)) \<and>
   longMinutes (fst (generateGNSSData_locals w)) < 60"
proof -
  let ?r = "rand_seq w"
  have lat: "to_unsigned (shd ?r) mod 90 < 2 ^ 32" "to_unsigned (shd (stl ?r)) mod 1000000 < 1000000"
    by (simp_all add: to_unsigned_less)
  have lon: "to_unsigned (shd (stl (stl ?r))) mod 180 < 2 ^ 32" "to_unsigned (shd (stl (stl (stl ?r)))) mod 1000000 < 1000000"
    by (simp_all add: to_unsigned_less)
  note A = coordinate [OF lat] and B = coordinate [OF lon]
  have a: "int (to_unsigned (shd ?r) mod 90) < 90" by simp
  have b: "int (to_unsigned (shd (stl (stl ?r))) mod 180) < 180" by simp
  show ?thesis
    unfolding locals_eq Let_def using A B a b by simp
qed

section \<open>The characters of the sentence\<close>

lemma plain_append [simp]: "plain (a @ b) \<longleftrightarrow> plain a \<and> plain b"
  by (auto simp: plain_def)

lemma plain_Nil [simp]: "plain []"
  by (simp add: plain_def)

lemma plain_Cons [simp]: "plain (c # cs) \<longleftrightarrow> c \<in> set ''0123456789-.ANSEW'' \<and> plain cs"
  by (simp add: plain_def)

lemma plain_replicate_0 [simp]: "plain (replicate n CHR ''0'')"
  by (induction n) simp_all

lemma digit_char_dec: "d < 10 \<Longrightarrow> digit_char d \<in> set ''0123456789''"
proof -
  assume "d < 10"
  then have "d \<in> {0, 1, 2, 3, 4, 5, 6, 7, 8, 9}" by auto
  then show ?thesis by (auto simp: digit_char_def)
qed

lemma digit_char_hex: "d < 16 \<Longrightarrow> digit_char d \<in> set ''0123456789ABCDEF''"
  unfolding digit_char_def by (rule nth_mem) simp

lemma digits_dec: "set (digits 10 n) \<subseteq> set ''0123456789''"
proof (induction "10::nat" n rule: digits.induct)
  case (1 n)
  show ?case
  proof (cases "n < 10")
    case True
    then show ?thesis using digit_char_dec [of n] by (simp add: digits.simps [of 10 n])
  next
    case False
    have "n mod 10 < 10" by simp
    then have "digit_char (n mod 10) \<in> set ''0123456789''" by (rule digit_char_dec)
    with False 1 show ?thesis by (simp add: digits.simps [of 10 n])
  qed
qed

lemma plain_digits [simp]: "plain (digits 10 n)"
  unfolding plain_def by (rule order_trans [OF digits_dec]) auto

lemma plain_to_string_int [simp]: "plain (to_string_int i)"
  by (simp add: to_string_int_def)

lemma plain_setw [simp]: "plain s \<Longrightarrow> plain (setw_setfill w CHR ''0'' s)"
  by (simp add: setw_setfill_def)

lemma plain_to_string_double [simp]: "plain (to_string_double x)"
  by (simp add: to_string_double_def Let_def)

lemma plain_time [simp]: "plain (getFormattedTime t)"
  by (simp add: getFormattedTime_def)

lemma plain_date [simp]: "plain (getFormattedDate t)"
  by (simp add: getFormattedDate_def)


section \<open>The sentence and its checksum\<close>

lemma sentence_eq:
  "generateGNSSData_sentence v =
     CHR ''$'' # (''GPRMC,'' @ join '','' (sentence_fields v)) @ CHR ''*'' #
       calculateChecksum (CHR ''$'' # ''GPRMC,'' @ join '','' (sentence_fields v))"
  by (simp add: generateGNSSData_sentence_def Let_def join_def sentence_fields_def)

lemma hex2: "setw_setfill 2 CHR ''0'' (digits 16 (unat (w :: 8 word))) = spec_toHex w"
proof -
  have lt: "unat w < 256" using unsigned_less [of w, where ?'a = nat] by simp
  show ?thesis
  proof (cases "unat w < 16")
    case True
    then show ?thesis
      by (simp add: digits.simps [of 16 "unat w"] setw_setfill_def spec_toHex_def digit_char_def)
  next
    case False
    moreover from lt have "unat w div 16 < 16" by simp
    ultimately show ?thesis
      by (simp add: digits.simps [of 16 "unat w"] digits.simps [of 16 "unat w div 16"]
          setw_setfill_def spec_toHex_def)
  qed
qed

lemma calculateChecksum_spec:
  "calculateChecksum (c # body) = spec_toHex (spec_compute body)"
  by (simp add: calculateChecksum_def hex2 xor_from_1_def spec_compute_def foldl_conv_fold)

lemma plain_no_star: "plain f \<Longrightarrow> CHR ''*'' \<notin> set f"
  by (auto simp: plain_def)

lemma plain_no_comma: "plain f \<Longrightarrow> CHR '','' \<notin> set f"
  by (auto simp: plain_def)

lemma plain_fields:
  "list_all plain (sentence_fields (fst (generateGNSSData_locals w)))"
  by (simp add: locals_eq Let_def sentence_fields_def)

lemma set_join: "set (join sep fs) \<subseteq> set sep \<union> \<Union> (set ` set fs)"
  by (cases fs) (auto simp: join_def)

lemma join_Cons: "join sep (f # g # fs) = f @ sep @ join sep (g # fs)"
  by (simp add: join_def)

lemma split_on_plain:
  assumes "CHR '','' \<notin> set f"
  shows "split_on CHR '','' f = [f]"
    and "split_on CHR '','' (f @ CHR '','' # rest) = f # split_on CHR '','' rest"
  using assms by (induction f) auto

lemma split_on_join:
  "list_all plain fs \<Longrightarrow> fs \<noteq> [] \<Longrightarrow> split_on CHR '','' (join '','' fs) = fs"
proof (induction fs rule: induct_list012)
  case 1
  then show ?case by simp
next
  case (2 f)
  then show ?case by (simp add: join_def split_on_plain(1) plain_no_comma)
next
  case (3 f g fs)
  then have "CHR '','' \<notin> set f" by (simp add: plain_no_comma)
  from split_on_plain(2) [OF this] 3 show ?case
    by (simp add: join_Cons)
qed

lemma join_no_star: "list_all plain fs \<Longrightarrow> CHR ''*'' \<notin> set (join '','' fs)"
  using set_join [of "'',''" fs] by (auto simp: list_all_iff dest: plain_no_star)

lemma join_chars:
  assumes "list_all plain fs"
  shows "set (join '','' fs) \<subseteq> set '','' \<union> set ''0123456789-.ANSEW''"
proof -
  have "\<Union> (set ` set fs) \<subseteq> set ''0123456789-.ANSEW''"
    using assms unfolding list_all_iff plain_def by blast
  with set_join [of "'',''" fs] show ?thesis by blast
qed

lemma generateGNSSData_eq:
  "fst (generateGNSSData w) = generateGNSSData_sentence (fst (generateGNSSData_locals w))"
  by (simp add: generateGNSSData_def split_def Let_def)

lemma sentence_form:
  defines "B \<equiv> \<lambda>w. ''GPRMC,'' @ join '','' (sentence_fields (fst (generateGNSSData_locals w)))"
  shows "fst (generateGNSSData w) = CHR ''$'' # B w @ CHR ''*'' # spec_toHex (spec_compute (B w))"
    and "CHR ''*'' \<notin> set (B w)"
proof -
  show "fst (generateGNSSData w) = CHR ''$'' # B w @ CHR ''*'' # spec_toHex (spec_compute (B w))"
    unfolding B_def generateGNSSData_eq sentence_eq calculateChecksum_spec by simp
  show "CHR ''*'' \<notin> set (B w)"
    unfolding B_def using join_no_star [OF plain_fields [of w]] by simp
qed

text \<open>
  C1. Every sentence the sender returns is \<^verbatim>\<open>$\<close>, a body without \<^verbatim>\<open>*\<close>, the
  \<^verbatim>\<open>*\<close>, and then exactly the two upper-case hexadecimal digits of the XOR of the
  bytes of that body: the checksum field is \<open>toHex (compute body)\<close> for the text
  strictly between the leading \<^verbatim>\<open>$\<close> and the \<^verbatim>\<open>*\<close>.
\<close>

theorem checksum_field:
  "let s = fst (generateGNSSData w);
       body = takeWhile (\<lambda>c. c \<noteq> CHR ''*'') (drop 1 s)
   in s = CHR ''$'' # body @ CHR ''*'' # spec_toHex (spec_compute body)"
proof -
  define B where "B = ''GPRMC,'' @ join '','' (sentence_fields (fst (generateGNSSData_locals w)))"
  have s: "fst (generateGNSSData w) = CHR ''$'' # B @ CHR ''*'' # spec_toHex (spec_compute B)"
    and B: "CHR ''*'' \<notin> set B"
    unfolding B_def by (rule sentence_form)+
  from B have "\<forall>c\<in>set B. c \<noteq> CHR ''*''" by blast
  then have "takeWhile (\<lambda>c. c \<noteq> CHR ''*'') (B @ CHR ''*'' # spec_toHex (spec_compute B)) = B"
    by (simp add: takeWhile_append2)
  then show ?thesis
    by (simp add: s Let_def)
qed

text \<open>
  C2. Whatever the clock and the random source give, the receiver's validator
  accepts the sentence the sender builds.
\<close>

theorem generated_sentence_accepted:
  "validateNMEAFormat (fst (generateGNSSData w)) = (True, [Valid_line])"
  by (simp add: validate_eq sentence_form(1))

section \<open>The fields of the sentence\<close>

lemma spec_toHex_hex: "set (spec_toHex w) \<subseteq> set ''0123456789ABCDEF''"
proof -
  have "unat w < 256" using unsigned_less [of w, where ?'a = nat] by simp
  then have "unat w div 16 < 16" and "unat w mod 16 < 16" by simp_all
  then show ?thesis
    using digit_char_hex [of "unat w div 16"] digit_char_hex [of "unat w mod 16"]
    by (simp add: spec_toHex_def)
qed

lemma fields_of_sentence:
  "fields_of (fst (generateGNSSData w)) = sentence_fields (fst (generateGNSSData_locals w))"
proof -
  define fs where "fs = sentence_fields (fst (generateGNSSData_locals w))"
  define H where "H = spec_toHex (spec_compute (''GPRMC,'' @ join '','' fs))"
  have s: "fst (generateGNSSData w) = ''$GPRMC,'' @ join '','' fs @ CHR ''*'' # H"
    unfolding fs_def H_def by (simp add: sentence_form(1))
  have pl: "list_all plain fs" unfolding fs_def by (rule plain_fields)
  then have "\<forall>c\<in>set (join '','' fs). c \<noteq> CHR ''*''"
    using join_no_star [of fs] by blast
  then have "takeWhile (\<lambda>c. c \<noteq> CHR ''*'') (join '','' fs @ CHR ''*'' # H) = join '','' fs"
    by (simp add: takeWhile_append2)
  moreover have "fs \<noteq> []" by (simp add: fs_def sentence_fields_def)
  ultimately show ?thesis
    using split_on_join [OF pl] by (simp add: fields_of_def s fs_def [symmetric])
qed

lemma checksum_tail:
  "dropWhile (\<lambda>c. c \<noteq> CHR ''*'') (fst (generateGNSSData w)) =
     CHR ''*'' # spec_toHex (spec_compute
        (''GPRMC,'' @ join '','' (sentence_fields (fst (generateGNSSData_locals w)))))"
proof -
  define B where "B = ''GPRMC,'' @ join '','' (sentence_fields (fst (generateGNSSData_locals w)))"
  have s: "fst (generateGNSSData w) = (CHR ''$'' # B) @ CHR ''*'' # spec_toHex (spec_compute B)"
    and B: "CHR ''*'' \<notin> set B"
    unfolding B_def by (simp add: sentence_form(1)) (rule sentence_form(2))
  from B have "\<forall>c\<in>set (CHR ''$'' # B). c \<noteq> CHR ''*''" by auto
  then show ?thesis
    unfolding s B_def [symmetric] by (subst dropWhile_append2) auto
qed

lemma sentence_chars:
  "set (fst (generateGNSSData w)) \<subseteq> set ''$GPRMC,*0123456789ABCDEF-.NSW''"
proof -
  define fs where "fs = sentence_fields (fst (generateGNSSData_locals w))"
  define H where "H = spec_toHex (spec_compute (''GPRMC,'' @ join '','' fs))"
  define T where "T = set ''$GPRMC,*0123456789ABCDEF-.NSW''"
  have s: "fst (generateGNSSData w) = ''$GPRMC,'' @ join '','' fs @ CHR ''*'' # H"
    unfolding fs_def H_def by (simp add: sentence_form(1))
  have a: "set ''$GPRMC,'' \<subseteq> T" and b: "set '','' \<union> set ''0123456789-.ANSEW'' \<subseteq> T"
    and c: "set ''0123456789ABCDEF'' \<subseteq> T" and d: "CHR ''*'' \<in> T"
    by (simp_all add: T_def)
  have "set (join '','' fs) \<subseteq> set '','' \<union> set ''0123456789-.ANSEW''"
    unfolding fs_def by (rule join_chars [OF plain_fields])
  with b have j: "set (join '','' fs) \<subseteq> T" by order
  have "set H \<subseteq> set ''0123456789ABCDEF''"
    unfolding H_def by (rule spec_toHex_hex)
  with c have h: "set H \<subseteq> T" by order
  have "set (fst (generateGNSSData w)) = set ''$GPRMC,'' \<union> set (join '','' fs) \<union> insert CHR ''*'' (set H)"
    unfolding s by (simp only: set_append list.set) blast
  with a j h d show ?thesis
    unfolding T_def [symmetric] by blast
qed

text \<open>
  C4, as amended. Every sentence the sender returns is \<^verbatim>\<open>$GPRMC,\<close> followed by
  twelve fields separated by commas (time, status, latitude, its hemisphere,
  longitude, its hemisphere, speed, course, date, variation, its direction, mode),
  then \<^verbatim>\<open>*\<close> and two hexadecimal digits; it is ASCII and holds no newline.
\<close>

theorem sentence_has_twelve_fields:
  "sentence_shape 12 (fst (generateGNSSData w))"
proof -
  let ?s = "fst (generateGNSSData w)"
  have 1: "take 7 ?s = ''$GPRMC,''"
    by (simp add: sentence_form(1))
  have 2: "length (fields_of ?s) = 12"
    by (simp add: fields_of_sentence sentence_fields_def)
  have 3: "length (dropWhile (\<lambda>c. c \<noteq> CHR ''*'') ?s) = 3"
    by (simp add: checksum_tail spec_toHex_def)
  have 4: "list_all (\<lambda>c. c \<in> set ''0123456789ABCDEF'') (drop 1 (dropWhile (\<lambda>c. c \<noteq> CHR ''*'') ?s))"
    using spec_toHex_hex by (simp add: checksum_tail list_all_iff subset_iff del: set_simps)
  have "\<forall>c\<in>set ''$GPRMC,*0123456789ABCDEF-.NSW''. (of_char c :: nat) < 128"
    by simp
  with sentence_chars [of w] have 5: "list_all (\<lambda>c. (of_char c :: nat) < 128) ?s"
    unfolding list_all_iff by blast
  have "CHR 0x0A \<notin> set ''$GPRMC,*0123456789ABCDEF-.NSW''"
    by simp
  with sentence_chars [of w] have 6: "CHR 0x0A \<notin> set ?s"
    by blast
  from 1 2 3 4 5 6 show ?thesis
    unfolding sentence_shape_def by blast
qed


section \<open>The sentence at the sample inputs\<close>

lemma to_string_double_eval:
  assumes "rne (\<bar>x\<bar> * 1000000) = int n" and "0 \<le> x"
  shows "to_string_double x =
    digits 10 (n div 1000000) @ ''.'' @ setw_setfill 6 CHR ''0'' (digits 10 (n mod 1000000))"
  using assms by (simp add: to_string_double_def)

lemma sample_lat:
  "to_int (dadd 37 (ddiv 241712 1000000)) = 37"
  "dmul (dsub (dadd 37 (ddiv 241712 1000000)) 37) 60 = 510269096780145 / 35184372088832"
  "rne (\<bar>510269096780145 / 35184372088832\<bar> * 1000000) = 14502720"
  by code_simp+

lemma sample_lon:
  "to_int (dadd 76 (ddiv 972197 1000000)) = 76"
  "dmul (dsub (dadd 76 (ddiv 972197 1000000)) 76) 60 = 256546057437345 / 4398046511104"
  "rne (\<bar>256546057437345 / 4398046511104\<bar> * 1000000) = 58331820"
  by code_simp+

lemma sample_next:
  "to_int (dadd 1 (ddiv 1 1000000)) = 1"
  "dmul (dsub (dadd 1 (ddiv 1 1000000)) 1) 60 = 67553994405 / 1125899906842624"
  "rne (\<bar>67553994405 / 1125899906842624\<bar> * 1000000) = 60"
  by code_simp+

lemma replicate_numeral: "replicate (numeral k) x = x # replicate (pred_numeral k) x"
  by (simp add: numeral_eq_Suc)

lemma sample_minutes:
  "to_string_double (510269096780145 / 35184372088832) = ''14.502720''"
  "to_string_double (256546057437345 / 4398046511104) = ''58.331820''"
  "to_string_double (67553994405 / 1125899906842624) = ''0.000060''"
proof -
  have 1: "rne (\<bar>510269096780145 / 35184372088832\<bar> * 1000000) = int 14502720"
    and 2: "rne (\<bar>256546057437345 / 4398046511104\<bar> * 1000000) = int 58331820"
    and 3: "rne (\<bar>67553994405 / 1125899906842624\<bar> * 1000000) = int 60"
    by (simp_all only: sample_lat(3) sample_lon(3) sample_next(3) of_nat_numeral)
  show "to_string_double (510269096780145 / 35184372088832) = ''14.502720''"
    by (simp add: to_string_double_eval [OF 1]
        digits.simps setw_setfill_def digit_char_def replicate_numeral)
  show "to_string_double (256546057437345 / 4398046511104) = ''58.331820''"
    by (simp add: to_string_double_eval [OF 2]
        digits.simps setw_setfill_def digit_char_def replicate_numeral)
  show "to_string_double (67553994405 / 1125899906842624) = ''0.000060''"
    by (simp add: to_string_double_eval [OF 3]
        digits.simps setw_setfill_def digit_char_def replicate_numeral)
qed

lemma sample_time:
  "getFormattedTime sample_clock = ''104512.00''"
  "getFormattedDate sample_clock = ''011024''"
  by (simp_all add: sample_clock_def getFormattedTime_def getFormattedDate_def
    to_string_int_def setw_setfill_def digits.simps digit_char_def replicate_numeral)

lemma sample_locals:
  "fst (generateGNSSData_locals sample_world) =
     \<lparr>utc = ''104512.00'', date = ''011024'',
      latDegrees = 37, latMinutes = 510269096780145 / 35184372088832,
      longDegrees = 76, longMinutes = 256546057437345 / 4398046511104,
      latDirection = CHR ''N'', lonDirection = CHR ''W'', varDirection = CHR ''E''\<rparr>"
  by (simp add: locals_eq sample_world_def Let_def to_unsigned_def sample_time sample_lat sample_lon)

lemma sample_sentence:
  "fst (generateGNSSData sample_world) =
     ''$GPRMC,104512.00,A,3714.502720,N,7658.331820,W,0.0,0.0,011024,0.0,E,A*16''"
  unfolding generateGNSSData_eq sample_locals
  by (simp add: generateGNSSData_sentence_def Let_def sample_minutes
    to_string_int_def digits.simps digit_char_def)
   (simp add: calculateChecksum_def xor_from_1_def setw_setfill_def digits.simps digit_char_def)

text \<open>
  C4 as stated fails: at the sample clock and random source the sentence has
  twelve fields after \<^verbatim>\<open>$GPRMC,\<close>, not eleven.
\<close>

theorem eleven_fields_counterexample:
  "fst (generateGNSSData sample_world) =
     ''$GPRMC,104512.00,A,3714.502720,N,7658.331820,W,0.0,0.0,011024,0.0,E,A*16'' \<and>
   length (fields_of (fst (generateGNSSData sample_world))) = 12 \<and>
   \<not> sentence_shape 11 (fst (generateGNSSData sample_world))"
  unfolding sample_sentence by (simp add: sentence_shape_def fields_of_def)











section \<open>Verification and tampering\<close>

lemma flip_dot: "flip_bit 2 CHR ''.'' = CHR ''*''"
  by (simp add: flip_bit_def char_of_eq_iff)

lemma of_char_word: "(of_char c :: 8 word) = of_nat (of_char c)"
  by (simp add: of_nat_of_char)

lemma of_char_word_inj: "(of_char c :: 8 word) = of_char d \<longleftrightarrow> c = d"
proof
  assume "(of_char c :: 8 word) = of_char d"
  then have "unat (of_nat (of_char c) :: 8 word) = unat (of_nat (of_char d) :: 8 word)"
    by (simp add: of_char_word)
  then have "(of_char c :: nat) = of_char d"
    by (simp add: unat_of_nat)
  then show "c = d" by simp
qed simp

lemma of_char_flip_bit: "(of_char (flip_bit k c) :: 8 word) = of_char c XOR push_bit k 1"
proof -
  define w :: "8 word" where "w = of_char c XOR push_bit k 1"
  have "unat w < 256" using unsigned_less [of w, where ?'a = nat] by simp
  then have "(of_char (char_of (unat w)) :: nat) = unat w" by simp
  then have "(of_char (char_of (unat w)) :: 8 word) = of_nat (unat w)"
    by (simp add: of_char_word)
  then show ?thesis by (simp add: flip_bit_def w_def)
qed

lemma xor_swap: "(a XOR x XOR d) XOR x XOR c = a XOR c XOR (d :: 8 word)"
  by (simp add: word_bw_comms(3) word_bw_lcs(3))

lemma xor_cancel: "a XOR b = a XOR c \<Longrightarrow> b = (c :: 8 word)"
  by (metis bit.xor_left_self)

lemma flip_bit_changes: "k < 8 \<Longrightarrow> (of_char (flip_bit k c) :: 8 word) \<noteq> of_char c"
proof
  assume k: "k < 8" and "(of_char (flip_bit k c) :: 8 word) = of_char c"
  then have "(of_char c :: 8 word) XOR push_bit k 1 = of_char c XOR 0"
    by (simp add: of_char_flip_bit)
  then have "(push_bit k 1 :: 8 word) = 0" by (rule xor_cancel)
  with k show False by simp
qed

lemma fold_xor: "fold (\<lambda>c acc. acc XOR of_char c) xs (a :: 8 word) = a XOR spec_compute xs"
proof (induction xs arbitrary: a)
  case Nil
  then show ?case by (simp add: spec_compute_def)
next
  case (Cons x xs)
  have "fold (\<lambda>c acc. acc XOR of_char c) (x # xs) a = (a XOR of_char x) XOR spec_compute xs"
    by (simp add: Cons.IH)
  also have "spec_compute (x # xs) = of_char x XOR spec_compute xs"
    using Cons.IH [of "of_char x"] by (simp add: spec_compute_def)
  ultimately show ?case by (simp add: xor.assoc)
qed

lemma spec_compute_Cons: "spec_compute (x # xs) = of_char x XOR spec_compute xs"
  using fold_xor [of xs "of_char x"] by (simp add: spec_compute_def)

lemma spec_compute_append: "spec_compute (xs @ ys) = spec_compute xs XOR spec_compute ys"
  using fold_xor [of ys "spec_compute xs"] by (simp add: spec_compute_def)

lemma spec_compute_update:
  assumes "i < length body"
  shows "spec_compute (body[i := c]) = spec_compute body XOR of_char (body ! i) XOR of_char c"
proof -
  have b: "body = take i body @ body ! i # drop (Suc i) body"
    using assms by (rule id_take_nth_drop)
  have u: "body[i := c] = take i body @ c # drop (Suc i) body"
    using assms by (rule upd_conv_take_nth_drop)
  have "spec_compute body =
      spec_compute (take i body) XOR of_char (body ! i) XOR spec_compute (drop (Suc i) body)"
    by (subst b) (simp add: spec_compute_append spec_compute_Cons xor.assoc)
  moreover have "spec_compute (body[i := c]) =
      spec_compute (take i body) XOR of_char c XOR spec_compute (drop (Suc i) body)"
    by (simp add: u spec_compute_append spec_compute_Cons xor.assoc)
  ultimately show ?thesis
    by (simp only: xor_swap)
qed

lemma compute_detects_change:
  assumes "i < length body" and "c \<noteq> body ! i"
  shows "spec_compute (body[i := c]) \<noteq> spec_compute body"
proof
  assume "spec_compute (body[i := c]) = spec_compute body"
  then have "spec_compute body XOR (of_char (body ! i) XOR of_char c) = spec_compute body XOR 0"
    using spec_compute_update [OF assms(1), of c] by (simp add: xor.assoc)
  then have "(of_char (body ! i) :: 8 word) XOR of_char c = 0"
    by (rule xor_cancel)
  then have "(of_char (body ! i) :: 8 word) = of_char c"
    by (metis bit.xor_left_self xor.right_neutral)
  with assms(2) show False by (simp add: of_char_word_inj)
qed

lemma digit_char_inj:
  assumes "d < 16" and "e < 16" and "digit_char d = digit_char e"
  shows "d = e"
proof -
  have "distinct ''0123456789ABCDEF''" by simp
  with assms show ?thesis
    unfolding digit_char_def by (simp add: nth_eq_iff_index_eq del: distinct.simps)
qed

lemma spec_toHex_inj: "spec_toHex a = spec_toHex b \<Longrightarrow> a = b"
proof -
  assume eq: "spec_toHex a = spec_toHex b"
  have a: "unat a < 256" using unsigned_less [of a, where ?'a = nat] by simp
  have b: "unat b < 256" using unsigned_less [of b, where ?'a = nat] by simp
  from a b have lt: "unat a div 16 < 16" "unat b div 16 < 16" "unat a mod 16 < 16" "unat b mod 16 < 16"
    by simp_all
  from eq have "digit_char (unat a div 16) = digit_char (unat b div 16)"
    and "digit_char (unat a mod 16) = digit_char (unat b mod 16)"
    by (simp_all add: spec_toHex_def)
  then have "unat a div 16 = unat b div 16" and "unat a mod 16 = unat b mod 16"
    using lt by (auto intro: digit_char_inj)
  then have "unat a = unat b" by (metis div_mult_mod_eq)
  then show "a = b" by (simp add: word_unat_eq_iff)
qed

lemma length_spec_toHex [simp]: "length (spec_toHex w) = 2"
  by (simp add: spec_toHex_def)

lemma verify_without_star: "CHR ''*'' \<notin> set (drop 1 s) \<Longrightarrow> \<not> spec_verify s"
  by (simp add: spec_verify_def)

lemma verify_sentence:
  assumes "CHR ''*'' \<notin> set body"
  shows "spec_verify (c # body @ CHR ''*'' # h) \<longleftrightarrow>
           map to_upper h = spec_toHex (spec_compute body)"
proof -
  from assms have all: "\<forall>x\<in>set body. x \<noteq> CHR ''*''" by blast
  then have "takeWhile (\<lambda>c. c \<noteq> CHR ''*'') (body @ CHR ''*'' # h) = body"
    by (simp add: takeWhile_append2)
  moreover from all have "dropWhile (\<lambda>c. c \<noteq> CHR ''*'') (body @ CHR ''*'' # h) = CHR ''*'' # h"
    by (subst dropWhile_append2) auto
  ultimately show ?thesis
    by (simp add: spec_verify_def)
qed

lemma xor_from_1_spec: "xor_from_1 (c # body) = spec_compute body"
  by (simp add: xor_from_1_def spec_compute_def foldl_conv_fold)

text \<open>
  C5. Verification answers false without a \<^verbatim>\<open>*\<close>; on a sentence with a body free
  of \<^verbatim>\<open>*\<close> it answers true exactly when the text after the \<^verbatim>\<open>*\<close> is, ignoring
  case, the two hexadecimal digits of the XOR of the body. Turning over one bit of
  one byte of the body changes the byte that \<^verbatim>\<open>calculateChecksum\<close> folds, and a
  sentence that verified no longer does.
\<close>

theorem verify_detects_bit_flip:
  "(CHR ''*'' \<notin> set (drop 1 s) \<longrightarrow> \<not> spec_verify s) \<and>
   (CHR ''*'' \<notin> set body \<longrightarrow>
      spec_verify (c # body @ CHR ''*'' # h) =
        (map to_upper h = spec_toHex (spec_compute body))) \<and>
   (i < length body \<and> k < 8 \<longrightarrow>
      xor_from_1 (c # body[i := flip_bit k (body ! i)]) \<noteq> xor_from_1 (c # body)) \<and>
   (CHR ''*'' \<notin> set body \<and> spec_verify (c # body @ CHR ''*'' # h) \<and>
    i < length body \<and> k < 8 \<longrightarrow>
      \<not> spec_verify (c # body[i := flip_bit k (body ! i)] @ CHR ''*'' # h))"
proof (intro conjI impI)
  assume "CHR ''*'' \<notin> set (drop 1 s)"
  then show "\<not> spec_verify s" by (rule verify_without_star)
next
  assume "CHR ''*'' \<notin> set body"
  then show "spec_verify (c # body @ CHR ''*'' # h) =
        (map to_upper h = spec_toHex (spec_compute body))"
    by (rule verify_sentence)
next
  assume a: "i < length body \<and> k < 8"
  then have "flip_bit k (body ! i) \<noteq> body ! i"
    using flip_bit_changes [of k "body ! i"] by auto
  with a show "xor_from_1 (c # body[i := flip_bit k (body ! i)]) \<noteq> xor_from_1 (c # body)"
    by (simp add: xor_from_1_spec compute_detects_change)
next
  assume a: "CHR ''*'' \<notin> set body \<and> spec_verify (c # body @ CHR ''*'' # h) \<and>
    i < length body \<and> k < 8"
  define x where "x = flip_bit k (body ! i)"
  from a have star: "CHR ''*'' \<notin> set body" and i: "i < length body" and k: "k < 8" by simp_all
  from a have "spec_verify (c # body @ CHR ''*'' # h)" by simp
  with verify_sentence [OF star, of c h] have h: "map to_upper h = spec_toHex (spec_compute body)"
    by blast
  from k have x: "x \<noteq> body ! i"
    using flip_bit_changes [of k "body ! i"] by (auto simp: x_def)
  show "\<not> spec_verify (c # body[i := flip_bit k (body ! i)] @ CHR ''*'' # h)"
  proof (cases "x = CHR ''*''")
    case False
    have "set (body[i := x]) \<subseteq> insert x (set body)" by (rule set_update_subset_insert)
    with False star have "CHR ''*'' \<notin> set (body[i := x])" by auto
    then have "spec_verify (c # body[i := x] @ CHR ''*'' # h) \<longleftrightarrow>
        map to_upper h = spec_toHex (spec_compute (body[i := x]))"
      by (rule verify_sentence)
    moreover have "spec_toHex (spec_compute (body[i := x])) \<noteq> spec_toHex (spec_compute body)"
      using compute_detects_change [OF i x] spec_toHex_inj by blast
    ultimately show ?thesis using h by (simp add: x_def)
  next
    case True
    have u: "body[i := x] = take i body @ CHR ''*'' # drop (Suc i) body"
      using i by (simp add: upd_conv_take_nth_drop True)
    have "CHR ''*'' \<notin> set (take i body)"
      using star by (meson in_set_takeD)
    then have "spec_verify (c # take i body @ CHR ''*'' # (drop (Suc i) body @ CHR ''*'' # h)) \<longleftrightarrow>
        map to_upper (drop (Suc i) body @ CHR ''*'' # h) =
          spec_toHex (spec_compute (take i body))"
      by (rule verify_sentence)
    moreover have "length (map to_upper h) = 2" by (simp add: h)
    then have "length (map to_upper (drop (Suc i) body @ CHR ''*'' # h)) \<noteq>
        length (spec_toHex (spec_compute (take i body)))"
      by simp
    then have "map to_upper (drop (Suc i) body @ CHR ''*'' # h) \<noteq>
          spec_toHex (spec_compute (take i body))"
      by metis
    ultimately show ?thesis by (simp add: u x_def [symmetric])
  qed
qed

theorem verify_detects_bit_flip_witness:
  "\<not> spec_verify ''$GPRMC,104512.00'' \<and>
   spec_verify (CHR ''$'' # sample_body @ ''*16'') \<and>
   sample_body[12 := flip_bit 2 (sample_body ! 12)] =
     ''GPRMC,104512*00,A,3714.502720,N,7658.331820,W,0.0,0.0,011024,0.0,E,A'' \<and>
   xor_from_1 (CHR ''$'' # sample_body[12 := flip_bit 2 (sample_body ! 12)]) \<noteq>
     xor_from_1 (CHR ''$'' # sample_body) \<and>
   \<not> spec_verify (CHR ''$'' # sample_body[12 := flip_bit 2 (sample_body ! 12)] @ ''*16'')"
proof -
  have 1: "CHR ''*'' \<notin> set (drop 1 ''$GPRMC,104512.00'')" by simp
  have 2: "CHR ''*'' \<notin> set sample_body" by (simp add: sample_body_def)
  have 3: "map to_upper ''16'' = spec_toHex (spec_compute sample_body)"
    by (simp add: sample_body_def spec_compute_def spec_toHex_def to_upper_def digit_char_def)
  have 4: "(12::nat) < length sample_body \<and> (2::nat) < 8" by (simp add: sample_body_def)
  have 5: "sample_body[12 := flip_bit 2 (sample_body ! 12)] =
     ''GPRMC,104512*00,A,3714.502720,N,7658.331820,W,0.0,0.0,011024,0.0,E,A''"
    by (simp add: sample_body_def flip_dot)
  from verify_detects_bit_flip [of "''$GPRMC,104512.00''" sample_body "CHR ''$''" "''16''" 12 2]
    1 2 3 4 5
  show ?thesis by simp
qed

section \<open>The receive loop\<close>

lemma running_arrive: "running (foldl arrive st acts) \<longleftrightarrow> running st \<and> Signal \<notin> set acts"
proof (induction acts arbitrary: st)
  case Nil
  then show ?case by simp
next
  case (Cons a acts)
  then show ?case
    by (cases a) (auto simp: on_message_def handle_signal_def)
qed

lemma running_process [simp]: "running (process_message t st) = running st"
  by (simp add: process_message_def Let_def split_def)

lemma running_loop_body: "running (loop_body t st) \<longleftrightarrow> running st \<and> \<not> signalled t"
  by (auto simp: loop_body_def Let_def mosquitto_loop_def running_arrive signalled_def
      handle_signal_def)

lemma exited_when_cleared: "\<not> running st \<Longrightarrow> main_loop st ts = (st, Exited)"
  by (cases ts) simp_all

lemma no_turn_when_cleared: "\<not> running st \<Longrightarrow> turns_taken st ts = 0"
  by (cases ts) simp_all

text \<open>
  C8. Once the running flag is cleared the loop takes at most one more turn and
  exits. If the flag is already cleared when the loop condition is read, the loop
  exits at once and the state stays as it is, whatever arrives afterwards. If the
  signal comes during a turn, after the condition was read, that turn is completed,
  it is the only one, and the loop exits; nothing that the environment offers later
  is logged, validated or stored.
\<close>

theorem shutdown_within_one_turn:
  "(\<not> running st \<longrightarrow> main_loop st ts = (st, Exited) \<and> turns_taken st ts = 0) \<and>
   (running st \<and> signalled t \<longrightarrow>
      main_loop st (t # ts) = (loop_body t st, Exited) \<and> turns_taken st (t # ts) = 1)"
proof (intro conjI impI)
  assume "\<not> running st"
  then show "main_loop st ts = (st, Exited)" and "turns_taken st ts = 0"
    by (simp_all add: exited_when_cleared no_turn_when_cleared)
next
  assume a: "running st \<and> signalled t"
  then have "\<not> running (loop_body t st)" by (simp add: running_loop_body)
  with a show "main_loop st (t # ts) = (loop_body t st, Exited)"
    and "turns_taken st (t # ts) = 1"
    by (simp_all add: exited_when_cleared no_turn_when_cleared)
qed

theorem shutdown_within_one_turn_witness:
  "\<not> running (handle_signal initial) \<and>
   main_loop (handle_signal initial) [turn_c] = (handle_signal initial, Exited) \<and>
   turns_taken (handle_signal initial) [turn_c] = 0 \<and>
   running initial \<and> signalled turn_b \<and>
   main_loop initial [turn_b, turn_c] =
     (\<lparr>receivedMessage = [], running = False,
       emitted = [Signal_line, Log_line ''2024-10-01 10:45:14'' ''noise'', Invalid_line]\<rparr>,
      Exited) \<and>
   turns_taken initial [turn_b, turn_c] = 1"
proof -
  have 1: "\<not> running (handle_signal initial)" by (simp add: handle_signal_def)
  have 2: "running initial \<and> signalled turn_b"
    by (simp add: initial_def signalled_def turn_b_def)
  have 3: "loop_body turn_b initial =
     \<lparr>receivedMessage = [], running = False,
       emitted = [Signal_line, Log_line ''2024-10-01 10:45:14'' ''noise'', Invalid_line]\<rparr>"
    by (simp add: loop_body_def turn_b_def initial_def mosquitto_loop_def on_message_def
        handle_signal_def process_message_def logGNSSData_def validate_eq)
  from shutdown_within_one_turn [of "handle_signal initial" "[turn_c]" turn_b]
    shutdown_within_one_turn [of initial "[turn_c]" turn_b] 1 2 3
  show ?thesis by simp
qed


lemma loop_goes_on:
  "running st \<Longrightarrow> \<not> signalled t \<Longrightarrow>
     running (loop_body t st) \<and> main_loop st (t # ts) = main_loop (loop_body t st) ts"
  by (simp add: running_loop_body)

lemma c_str_without_nul: "CHR 0x00 \<notin> set s \<Longrightarrow> c_str s = s"
  unfolding c_str_def by (simp add: takeWhile_eq_all_conv) blast

lemma insert_statement_verbatim:
  "CHR 0x00 \<notin> set m \<Longrightarrow>
     insert_statement m =
       ''INSERT INTO GNSS_DATA (NMEA_DATA) VALUES ('' @ [CHR 0x27] @ m @ [CHR 0x27] @ '');''"
  unfolding insert_statement_def insert_sql_def by (rule c_str_without_nul) simp


lemma logged_append [simp]: "logged (a @ b) = logged a @ logged b"
  by (induction a rule: logged.induct) simp_all

lemma verdicts_append [simp]: "verdicts (a @ b) = verdicts a @ verdicts b"
  by (induction a rule: verdicts.induct) simp_all

lemma executed_append [simp]: "executed (a @ b) = executed a @ executed b"
  by (induction a rule: executed.induct) simp_all

lemma poll_buffer:
  "receivedMessage (foldl arrive st acts) =
     (if payloads acts = [] then receivedMessage st else last (payloads acts))"
proof (induction acts arbitrary: st)
  case Nil
  then show ?case by simp
next
  case (Cons a acts)
  then show ?case
    by (cases a) (simp_all add: on_message_def handle_signal_def)
qed

lemma poll_emitted:
  "logged (emitted (foldl arrive st acts)) = logged (emitted st)"
  "verdicts (emitted (foldl arrive st acts)) = verdicts (emitted st)"
  "executed (emitted (foldl arrive st acts)) = executed (emitted st)"
proof (induction acts arbitrary: st)
  case Nil
  {
    case 1 show ?case by simp
  next
    case 2 show ?case by simp
  next
    case 3 show ?case by simp
  }
next
  case (Cons a acts)
  {
    case 1 show ?case using Cons.IH(1) by (cases a) (simp_all add: on_message_def handle_signal_def)
  next
    case 2 show ?case using Cons.IH(2) by (cases a) (simp_all add: on_message_def handle_signal_def)
  next
    case 3 show ?case using Cons.IH(3) by (cases a) (simp_all add: on_message_def handle_signal_def)
  }
qed

lemma loop_body_step:
  assumes "receivedMessage st = []"
  shows "\<exists>L E. receivedMessage (loop_body t st) = [] \<and>
           logged (emitted (loop_body t st)) = logged (emitted st) @ L \<and>
           [] \<notin> set L \<and> subseq L (payloads (arrivals t)) \<and>
           verdicts (emitted (loop_body t st)) =
             verdicts (emitted st) @ map (\<lambda>m. fst (validateNMEAFormat m)) L \<and>
           executed (emitted (loop_body t st)) = executed (emitted st) @ E \<and>
           subseq E (map insert_statement L)"
proof -
  define p where "p = mosquitto_loop (arrivals t) st"
  define m where "m = receivedMessage p"
  have em: "logged (emitted p) = logged (emitted st)" "verdicts (emitted p) = verdicts (emitted st)"
    "executed (emitted p) = executed (emitted st)"
    unfolding p_def mosquitto_loop_def by (rule poll_emitted)+
  show ?thesis
  proof (cases "m = []")
    case True
    then have "process_message t p = p" by (simp add: process_message_def m_def)
    then have "receivedMessage (loop_body t st) = [] \<and>
           logged (emitted (loop_body t st)) = logged (emitted st) @ [] \<and>
           [] \<notin> set ([] :: string list) \<and> subseq [] (payloads (arrivals t)) \<and>
           verdicts (emitted (loop_body t st)) =
             verdicts (emitted st) @ map (\<lambda>m. fst (validateNMEAFormat m)) [] \<and>
           executed (emitted (loop_body t st)) = executed (emitted st) @ [] \<and>
           subseq [] (map insert_statement [])"
      using True em
      by (simp add: loop_body_def Let_def p_def [symmetric] m_def handle_signal_def)
    then show ?thesis by blast
  next
    case False
    with assms have ne: "payloads (arrivals t) \<noteq> []" and mlast: "m = last (payloads (arrivals t))"
      by (auto simp: m_def p_def mosquitto_loop_def poll_buffer split: if_splits)
    then have "m \<in> set (payloads (arrivals t))" by simp
    then have sub: "subseq [m] (payloads (arrivals t))" by (simp add: subseq_singleton_left)
    define E where "E = (if fst (validateNMEAFormat m) then [insert_statement m] else [])"
    have "receivedMessage (loop_body t st) = [] \<and>
           logged (emitted (loop_body t st)) = logged (emitted st) @ [m] \<and>
           [] \<notin> set [m] \<and> subseq [m] (payloads (arrivals t)) \<and>
           verdicts (emitted (loop_body t st)) =
             verdicts (emitted st) @ map (\<lambda>m. fst (validateNMEAFormat m)) [m] \<and>
           executed (emitted (loop_body t st)) = executed (emitted st) @ E \<and>
           subseq E (map insert_statement [m])"
      using False em sub
      by (auto simp: loop_body_def Let_def p_def [symmetric] m_def [symmetric] handle_signal_def
          process_message_def validate_eq logGNSSData_def storeValidData_def
          insert_statement_def E_def
          split: option.splits)
    then show ?thesis by blast
  qed
qed

lemma main_loop_run:
  assumes "receivedMessage st = []"
  shows "\<exists>L E. logged (emitted (fst (main_loop st ts))) = logged (emitted st) @ L \<and>
           [] \<notin> set L \<and> subseq L (delivered ts) \<and>
           verdicts (emitted (fst (main_loop st ts))) =
             verdicts (emitted st) @ map (\<lambda>m. fst (validateNMEAFormat m)) L \<and>
           executed (emitted (fst (main_loop st ts))) = executed (emitted st) @ E \<and>
           subseq E (map insert_statement L)"
  using assms
proof (induction ts arbitrary: st)
  case Nil
  have "logged (emitted (fst (main_loop st []))) = logged (emitted st) @ [] \<and>
           [] \<notin> set ([] :: string list) \<and> subseq [] (delivered []) \<and>
           verdicts (emitted (fst (main_loop st []))) =
             verdicts (emitted st) @ map (\<lambda>m. fst (validateNMEAFormat m)) [] \<and>
           executed (emitted (fst (main_loop st []))) = executed (emitted st) @ [] \<and>
           subseq [] (map insert_statement [])"
    by simp
  then show ?case by blast
next
  case (Cons t ts)
  show ?case
  proof (cases "running st")
    case False
    then have "logged (emitted (fst (main_loop st (t # ts)))) = logged (emitted st) @ [] \<and>
           [] \<notin> set ([] :: string list) \<and> subseq [] (delivered (t # ts)) \<and>
           verdicts (emitted (fst (main_loop st (t # ts)))) =
             verdicts (emitted st) @ map (\<lambda>m. fst (validateNMEAFormat m)) [] \<and>
           executed (emitted (fst (main_loop st (t # ts)))) = executed (emitted st) @ [] \<and>
           subseq [] (map insert_statement [])"
      by simp
    then show ?thesis by blast
  next
    case True
    from loop_body_step [OF Cons.prems, of t] obtain L1 E1 where
      1: "receivedMessage (loop_body t st) = []"
        "logged (emitted (loop_body t st)) = logged (emitted st) @ L1"
        "[] \<notin> set L1" "subseq L1 (payloads (arrivals t))"
        "verdicts (emitted (loop_body t st)) =
           verdicts (emitted st) @ map (\<lambda>m. fst (validateNMEAFormat m)) L1"
        "executed (emitted (loop_body t st)) = executed (emitted st) @ E1"
        "subseq E1 (map insert_statement L1)"
      by blast
    from Cons.IH [OF 1(1)] obtain L2 E2 where
      2: "logged (emitted (fst (main_loop (loop_body t st) ts))) =
            logged (emitted (loop_body t st)) @ L2"
        "[] \<notin> set L2" "subseq L2 (delivered ts)"
        "verdicts (emitted (fst (main_loop (loop_body t st) ts))) =
           verdicts (emitted (loop_body t st)) @ map (\<lambda>m. fst (validateNMEAFormat m)) L2"
        "executed (emitted (fst (main_loop (loop_body t st) ts))) =
           executed (emitted (loop_body t st)) @ E2"
        "subseq E2 (map insert_statement L2)"
      by blast
    have d: "delivered (t # ts) = payloads (arrivals t) @ delivered ts"
      by (simp add: delivered_def)
    have "subseq (L1 @ L2) (delivered (t # ts))"
      unfolding d using 1(4) 2(3) by (rule list_emb_append_mono)
    moreover have "subseq (E1 @ E2) (map insert_statement (L1 @ L2))"
      using list_emb_append_mono [OF 1(7) 2(6)] by simp
    ultimately have "logged (emitted (fst (main_loop st (t # ts)))) = logged (emitted st) @ (L1 @ L2) \<and>
           [] \<notin> set (L1 @ L2) \<and> subseq (L1 @ L2) (delivered (t # ts)) \<and>
           verdicts (emitted (fst (main_loop st (t # ts)))) =
             verdicts (emitted st) @ map (\<lambda>m. fst (validateNMEAFormat m)) (L1 @ L2) \<and>
           executed (emitted (fst (main_loop st (t # ts)))) = executed (emitted st) @ (E1 @ E2) \<and>
           subseq (E1 @ E2) (map insert_statement (L1 @ L2))"
      using True 1 2 by simp
    then show ?thesis by blast
  qed
qed

text \<open>
  C10. From the initial state, against any environment: no empty payload is ever
  logged, validated or stored, and the logged messages are a subsequence of the
  delivered payloads, so that each delivery is logged at most once; there is one
  verdict per logged message, and the executed statements are a subsequence of the
  insert statements of the logged messages, so that each is stored at most once.
\<close>

theorem processed_at_most_once:
  "[] \<notin> set (logged (emitted (fst (main_loop initial ts)))) \<and>
   subseq (logged (emitted (fst (main_loop initial ts)))) (delivered ts) \<and>
   verdicts (emitted (fst (main_loop initial ts))) =
     map (\<lambda>m. fst (validateNMEAFormat m)) (logged (emitted (fst (main_loop initial ts)))) \<and>
   subseq (executed (emitted (fst (main_loop initial ts))))
     (map insert_statement (logged (emitted (fst (main_loop initial ts)))))"
proof -
  have "receivedMessage initial = []" by (simp add: initial_def)
  from main_loop_run [OF this, of ts] show ?thesis
    by (auto simp: initial_def)
qed

theorem processed_at_most_once_witness:
  "delivered [turn_a, turn_b, turn_c] = [''$GPRMC,1'', [], ''$GPRMC,2'', ''noise'', ''$GPRMC,3''] \<and>
   logged (emitted (fst (main_loop initial [turn_a, turn_b, turn_c]))) = [''$GPRMC,2'', ''noise''] \<and>
   verdicts (emitted (fst (main_loop initial [turn_a, turn_b, turn_c]))) = [True, False] \<and>
   executed (emitted (fst (main_loop initial [turn_a, turn_b, turn_c]))) =
     [insert_statement ''$GPRMC,2''] \<and>
   [] \<notin> set (logged (emitted (fst (main_loop initial [turn_a, turn_b, turn_c])))) \<and>
   subseq (logged (emitted (fst (main_loop initial [turn_a, turn_b, turn_c]))))
     (delivered [turn_a, turn_b, turn_c])"
proof -
  have 1: "delivered [turn_a, turn_b, turn_c] =
      [''$GPRMC,1'', [], ''$GPRMC,2'', ''noise'', ''$GPRMC,3'']"
    by (simp add: delivered_def turn_a_def turn_b_def turn_c_def)
  have 2: "emitted (fst (main_loop initial [turn_a, turn_b, turn_c])) =
      [Log_line ''2024-10-01 10:45:13'' ''$GPRMC,2'', Valid_line,
       Sql_exec (insert_statement ''$GPRMC,2''), Inserted_line,
       Signal_line, Log_line ''2024-10-01 10:45:14'' ''noise'', Invalid_line]"
    by (simp add: loop_body_def turn_a_def turn_b_def initial_def mosquitto_loop_def on_message_def
        handle_signal_def process_message_def logGNSSData_def validate_eq
        storeValidData_def insert_statement_def)
  from processed_at_most_once [of "[turn_a, turn_b, turn_c]"] 1 2
  show ?thesis by simp
qed

end
